theory Spec2Isabelle
  imports Complex_Main "HOL-Library.Multiset" "HOL-Library.Log_Nat"
begin

section \<open>Comment tree builder (CommentSection)\<close>

text \<open>
  \<^verbatim>\<open>organizeComments\<close> builds the reply tree by pushing references to shared objects,
  so the model has an explicit store. An address is an index into the heap, a heap cell
  is one \<^verbatim>\<open>Comment\<close> object, and the \<^verbatim>\<open>replies\<close> array of an object holds addresses.
  Objects are allocated at the end of the heap and never freed.
\<close>

datatype role = RoleUser | RoleAdmin

datatype user = User
  (userId: string) (email: string) (username: string) (fullName: string)
  (avatar: "string option") (userRole: role) (bio: "string option")
  (userCreatedAt: int) (userUpdatedAt: int)

type_synonym addr = nat

record comment =
  id' :: string
  content :: string
  blogId :: string
  authorId :: string
  author :: "user option"
  parentId :: "string option"
  replies :: "addr list option"
  createdAt :: int
  updatedAt :: int

type_synonym heap = "comment list"

text \<open>
  \<open>NonNullAssertion\<close> is the failure of \<^verbatim>\<open>commentMap.get(comment.id)!\<close>;
  \<open>DanglingReference\<close> is a read through an address that holds no object, which
  no JavaScript reference can be.
\<close>

datatype error = NonNullAssertion | DanglingReference

definition deref :: "heap \<Rightarrow> addr \<Rightarrow> comment option" where
  "deref h a = (if a < length h then Some (h ! a) else None)"

text \<open>JavaScript truthiness of an optional string: defined and not the empty string.\<close>

definition truthy :: "string option \<Rightarrow> bool" where
  "truthy s = (case s of None \<Rightarrow> False | Some v \<Rightarrow> v \<noteq> [])"

text \<open>The parent id that \<^verbatim>\<open>if (comment.parentId)\<close> lets through.\<close>

definition parentRef :: "comment \<Rightarrow> string option" where
  "parentRef c = (if truthy (parentId c) then parentId c else None)"

text \<open>\<^verbatim>\<open>parent.replies || []\<close>\<close>

definition repliesOr :: "comment \<Rightarrow> addr list" where
  "repliesOr c = (case replies c of None \<Rightarrow> [] | Some r \<Rightarrow> r)"

text \<open>
  First pass: \<^verbatim>\<open>commentMap.set(comment.id, { ...comment, replies: [] })\<close> for every
  element of the array. The copy is a new object; a later comment with the same id
  takes over the key.
\<close>

fun firstPass ::
  "addr list \<Rightarrow> heap \<times> (string \<rightharpoonup> addr) \<Rightarrow> error + heap \<times> (string \<rightharpoonup> addr)" where
  "firstPass [] (h, commentMap) = Inr (h, commentMap)"
| "firstPass (a # as) (h, commentMap) =
     (case deref h a of
        None \<Rightarrow> Inl DanglingReference
      | Some comment \<Rightarrow>
          firstPass as (h @ [comment\<lparr>replies := Some []\<rparr>],
                        commentMap(id' comment \<mapsto> length h)))"

text \<open>The body of the second \<^verbatim>\<open>forEach\<close>, for the comment at address \<open>a\<close>.\<close>

definition attach ::
  "(string \<rightharpoonup> addr) \<Rightarrow> addr \<Rightarrow> heap \<times> addr list \<Rightarrow> error + heap \<times> addr list" where
  "attach commentMap a s =
     (case s of (h, rootComments) \<Rightarrow>
      (case deref h a of
         None \<Rightarrow> Inl DanglingReference
       | Some comment \<Rightarrow>
          (case commentMap (id' comment) of
             None \<Rightarrow> Inl NonNullAssertion
           | Some commentWithReplies \<Rightarrow>
              (case parentRef comment of
                 Some pid \<Rightarrow>
                   (case commentMap pid of
                      None \<Rightarrow> Inr (h, rootComments)
                    | Some parent \<Rightarrow>
                       (case deref h parent of
                          None \<Rightarrow> Inl DanglingReference
                        | Some p \<Rightarrow>
                            Inr (h[parent := p\<lparr>replies :=
                                     Some (repliesOr p @ [commentWithReplies])\<rparr>],
                                 rootComments)))
               | None \<Rightarrow> Inr (h, rootComments @ [commentWithReplies])))))"

fun secondPass ::
  "(string \<rightharpoonup> addr) \<Rightarrow> addr list \<Rightarrow> heap \<times> addr list \<Rightarrow> error + heap \<times> addr list" where
  "secondPass commentMap [] s = Inr s"
| "secondPass commentMap (a # as) s =
     (case attach commentMap a s of
        Inl e \<Rightarrow> Inl e
      | Inr s' \<Rightarrow> secondPass commentMap as s')"

text \<open>
  \<open>organizeComments h allComments\<close>: the array \<open>allComments\<close> holds the addresses of
  the caller's objects in the heap \<open>h\<close>. The result is the heap at return and the
  array \<^verbatim>\<open>rootComments\<close>.
\<close>

definition organizeComments :: "heap \<Rightarrow> addr list \<Rightarrow> error + heap \<times> addr list" where
  "organizeComments h allComments =
     (case firstPass allComments (h, Map.empty) of
        Inl e \<Rightarrow> Inl e
      | Inr (h1, commentMap) \<Rightarrow> secondPass commentMap allComments (h1, []))"

text \<open>
  The depth-first flattening, in the order in which \<^verbatim>\<open>CommentItem\<close> renders: a comment,
  then \<^verbatim>\<open>comment.replies?.map\<close> over its replies, then its next sibling. The first
  argument bounds the nesting depth; \<open>None\<close> means that the bound was reached, as it is on
  a cyclic object graph for every bound.
\<close>

definition repliesOf :: "heap \<Rightarrow> addr \<Rightarrow> addr list" where
  "repliesOf h a = (case deref h a of None \<Rightarrow> [] | Some c \<Rightarrow> repliesOr c)"

fun flatten :: "nat \<Rightarrow> heap \<Rightarrow> addr list \<Rightarrow> addr list option" where
  "flatten d h [] = Some []"
| "flatten 0 h (a # as) = None"
| "flatten (Suc d) h (a # as) =
     (case flatten d h (repliesOf h a) of
        None \<Rightarrow> None
      | Some below \<Rightarrow>
         (case flatten (Suc d) h as of
            None \<Rightarrow> None
          | Some rest \<Rightarrow> Some (a # below @ rest)))"

subsection \<open>The input collection and its parent references\<close>

text \<open>The records that the input array refers to.\<close>

definition inputComments :: "heap \<Rightarrow> addr list \<Rightarrow> comment list" where
  "inputComments h as = map (\<lambda>a. h ! a) as"

text \<open>
  Every element of the array is the address of an object of the caller's heap, as every
  element of a JavaScript array of \<^verbatim>\<open>Comment\<close> objects is.
\<close>

definition validInput :: "heap \<Rightarrow> addr list \<Rightarrow> bool" where
  "validInput h as = list_all (\<lambda>a. a < length h) as"

text \<open>An object without its derived \<^verbatim>\<open>replies\<close> field.\<close>

definition stored :: "comment \<Rightarrow> comment" where
  "stored c = c\<lparr>replies := None\<rparr>"


text \<open>
  \<open>reachesRoot cs k c\<close>: following parent references from \<open>c\<close> arrives at a comment
  without one in at most \<open>k\<close> steps.
\<close>

fun reachesRoot :: "comment list \<Rightarrow> nat \<Rightarrow> comment \<Rightarrow> bool" where
  "reachesRoot cs 0 c = (parentRef c = None)"
| "reachesRoot cs (Suc k) c =
     (case parentRef c of
        None \<Rightarrow> True
      | Some pid \<Rightarrow>
         (case find (\<lambda>p. id' p = pid) cs of
            None \<Rightarrow> False
          | Some p \<Rightarrow> reachesRoot cs k p))"


text \<open>
  \<open>rooted cs\<close>: the parent references of every comment lead to a comment without one
  in at most \<open>length cs\<close> steps. On a finite collection this says that no parent
  reference is an orphan and that the parent references form no cycle.
\<close>

definition rooted :: "comment list \<Rightarrow> bool" where
  "rooted cs = list_all (\<lambda>c. reachesRoot cs (length cs) c) cs"

text \<open>The comments of \<open>cs\<close> that arrive at a comment without parent reference in at most \<open>k\<close> steps.\<close>

definition rootedWithin :: "comment list \<Rightarrow> nat \<Rightarrow> comment set" where
  "rootedWithin cs k = {c \<in> set cs. reachesRoot cs k c}"

text \<open>Every \<^verbatim>\<open>parentId\<close> that is present is the id of a comment of the collection.\<close>

definition noOrphans :: "comment list \<Rightarrow> bool" where
  "noOrphans cs =
     list_all (\<lambda>c. case parentId c of None \<Rightarrow> True | Some pid \<Rightarrow> pid \<in> set (map id' cs)) cs"

subsection \<open>The two passes in closed form\<close>

text \<open>
  The lookup after the first pass over the records \<open>cs\<close>, when the first copy is
  allocated at \<open>base\<close>.
\<close>

fun lookupAfter ::
  "(string \<rightharpoonup> addr) \<Rightarrow> addr \<Rightarrow> comment list \<Rightarrow> (string \<rightharpoonup> addr)" where
  "lookupAfter m base [] = m"
| "lookupAfter m base (c # cs) = lookupAfter (m(id' c \<mapsto> base)) (Suc base) cs"

text \<open>
  What the second pass does to one object: \<open>kidsFor m cs p\<close> are the references that
  the pass over \<open>cs\<close> pushes onto the object at \<open>p\<close>, \<open>rootsFor m cs\<close> the ones it pushes
  onto \<^verbatim>\<open>rootComments\<close>.
\<close>

definition addKids :: "comment \<Rightarrow> addr list \<Rightarrow> comment" where
  "addKids cell ks = (if ks = [] then cell else cell\<lparr>replies := Some (repliesOr cell @ ks)\<rparr>)"

definition kidsFor :: "(string \<rightharpoonup> addr) \<Rightarrow> comment list \<Rightarrow> addr \<Rightarrow> addr list" where
  "kidsFor m cs p =
     map (\<lambda>c. the (m (id' c)))
       (filter (\<lambda>c. case parentRef c of None \<Rightarrow> False | Some k \<Rightarrow> m k = Some p) cs)"

definition rootsFor :: "(string \<rightharpoonup> addr) \<Rightarrow> comment list \<Rightarrow> addr list" where
  "rootsFor m cs = map (\<lambda>c. the (m (id' c))) (filter (\<lambda>c. parentRef c = None) cs)"

text \<open>
  The forest described directly, for a collection with unique ids: the copy of the
  \<open>i\<close>-th input comment is the object at \<open>length h + i\<close>, its replies are the copies
  of the comments that name it as their parent, in input order, and the roots are the
  copies of the comments without a parent reference, in input order.
\<close>

definition rootIdx :: "comment list \<Rightarrow> nat list" where
  "rootIdx cs = filter (\<lambda>j. parentRef (cs ! j) = None) [0..<length cs]"

definition childIdx :: "comment list \<Rightarrow> nat \<Rightarrow> nat list" where
  "childIdx cs i = filter (\<lambda>j. parentRef (cs ! j) = Some (id' (cs ! i))) [0..<length cs]"

definition specRoots :: "heap \<Rightarrow> addr list \<Rightarrow> addr list" where
  "specRoots h as = map (\<lambda>i. length h + i) (rootIdx (inputComments h as))"

definition specHeap :: "heap \<Rightarrow> addr list \<Rightarrow> heap" where
  "specHeap h as =
     h @ map (\<lambda>i. (inputComments h as ! i)
                 \<lparr>replies := Some (map (\<lambda>j. length h + j) (childIdx (inputComments h as) i))\<rparr>)
           [0..<length as]"

text \<open>The addresses of the copies of the input comments whose index satisfies \<open>Q\<close>.\<close>

definition copies :: "heap \<Rightarrow> addr list \<Rightarrow> (nat \<Rightarrow> bool) \<Rightarrow> addr set" where
  "copies h as Q = {a. length h \<le> a \<and> a < length h + length as \<and> Q (a - length h)}"

subsection \<open>Example collections\<close>

text \<open>
  The thread of the specification (\<^verbatim>\<open>1\<close>, \<^verbatim>\<open>2\<close>, and the replies \<^verbatim>\<open>1a\<close>, \<^verbatim>\<open>1b\<close> to
  \<^verbatim>\<open>1\<close>), a comment whose parent is missing, a comment that is its own parent, and a
  comment whose \<^verbatim>\<open>parentId\<close> is the empty string.
\<close>

definition mkComment :: "string \<Rightarrow> string option \<Rightarrow> comment" where
  "mkComment i p = \<lparr> id' = i, content = ''text'', blogId = ''blog'', authorId = ''user'',
     author = None, parentId = p, replies = None, createdAt = 0, updatedAt = 0 \<rparr>"

definition threadHeap :: heap where
  "threadHeap = [mkComment ''1'' None, mkComment ''2'' None,
                 mkComment ''1a'' (Some ''1''), mkComment ''1b'' (Some ''1'')]"

definition orphanHeap :: heap where
  "orphanHeap = [mkComment ''a'' (Some ''missing'')]"

definition selfParentHeap :: heap where
  "selfParentHeap = [mkComment ''a'' (Some ''a'')]"

definition emptyParentHeap :: heap where
  "emptyParentHeap = [mkComment ''a'' (Some [])]"



section \<open>Filter and query state (BlogList and Search views)\<close>

subsection \<open>JavaScript numbers\<close>

text \<open>
  \<^verbatim>\<open>limit\<close>, \<^verbatim>\<open>offset\<close> and the page number are JavaScript numbers, that is IEEE 754
  binary64 values. \<open>Fin r\<close> is the finite value \<open>r\<close>, a rational that binary64 has (\<open>Fin 0\<close>
  is \<open>+0\<close>), and \<open>NegZero\<close> is \<open>-0\<close>. An arithmetic operation takes the exact result and
  rounds it to the nearest binary64 value, ties to the even significand: 53 significant
  bits, exponents from \<open>-1022\<close> to \<open>1023\<close>, gradual underflow, and overflow to an infinity.
\<close>

datatype number = NaN | PosInf | NegInf | NegZero | Fin rat


















subsection \<open>Filters, updates and views\<close>

text \<open>
  \<^verbatim>\<open>BlogFilters\<close> of the types module: every field is optional. The string-literal unions
  (\<^verbatim>\<open>status\<close>, \<^verbatim>\<open>sortBy\<close>, \<^verbatim>\<open>sortOrder\<close>) are strings at run time, and the views
  store URL parameters in them through \<^verbatim>\<open>as any\<close>, so they are modelled as strings.
  \<^verbatim>\<open>limit\<close> and \<^verbatim>\<open>offset\<close> are numbers.
\<close>

record blogFilters =
  search :: "string option"
  categories :: "string list option"
  tags :: "string list option"
  author :: "string option"
  status :: "string option"
  sortBy :: "string option"
  sortOrder :: "string option"
  limit :: "number option"
  offset :: "number option"

text \<open>
  \<^verbatim>\<open>Partial<BlogFilters>\<close>: an object literal in which each key is either missing
  (\<open>None\<close>) or present with a value that may itself be \<^verbatim>\<open>undefined\<close>
  (\<open>Some None\<close>). The fields carry the suffix \<open>P\<close>.
\<close>

record partialFilters =
  searchP :: "string option option"
  categoriesP :: "string list option option"
  tagsP :: "string list option option"
  authorP :: "string option option"
  statusP :: "string option option"
  sortByP :: "string option option"
  sortOrderP :: "string option option"
  limitP :: "number option option"
  offsetP :: "number option option"

text \<open>One key of an object spread \<^verbatim>\<open>{...a, ...b}\<close>: a key present in \<open>b\<close> wins.\<close>

definition spread :: "'a option \<Rightarrow> 'a option option \<Rightarrow> 'a option" where
  "spread cur upd = (case upd of None \<Rightarrow> cur | Some v \<Rightarrow> v)"

definition spreadFilters :: "blogFilters \<Rightarrow> partialFilters \<Rightarrow> blogFilters" where
  "spreadFilters f p =
     \<lparr> search = spread (search f) (searchP p),
       categories = spread (categories f) (categoriesP p),
       tags = spread (tags f) (tagsP p),
       author = spread (author f) (authorP p),
       status = spread (status f) (statusP p),
       sortBy = spread (sortBy f) (sortByP p),
       sortOrder = spread (sortOrder f) (sortOrderP p),
       limit = spread (limit f) (limitP p),
       offset = spread (offset f) (offsetP p) \<rparr>"

text \<open>
  \<^verbatim>\<open>URLSearchParams\<close> as the ordered list of its pairs. \<^verbatim>\<open>set\<close> replaces the value of
  a key that is there and appends the pair otherwise.
\<close>

type_synonym urlSearchParams = "(string \<times> string) list"

fun paramsSet :: "string \<Rightarrow> string \<Rightarrow> urlSearchParams \<Rightarrow> urlSearchParams" where
  "paramsSet k v [] = [(k, v)]"
| "paramsSet k v ((k', v') # ps) =
     (if k' = k then (k, v) # filter (\<lambda>(k'', _). k'' \<noteq> k) ps
      else (k', v') # paramsSet k v ps)"

text \<open>
  The state the two views work on: the filter object of the blog context, the URL query
  of the router and the category check boxes; each view adds its own local state.
\<close>

record view =
  filters :: blogFilters
  searchParams :: urlSearchParams
  selectedCategories :: "string list"

record blogListView = view +
  localSearch :: string

record searchView = view +
  searchQuery :: string
  searchSubmitted :: bool

subsection \<open>BlogList\<close>

text \<open>The URL part of \<^verbatim>\<open>applyFilters\<close>: four guarded \<^verbatim>\<open>set\<close> calls on a fresh object.\<close>

definition urlOfFilters :: "blogFilters \<Rightarrow> urlSearchParams" where
  "urlOfFilters updatedFilters =
     (let p0 = [];
          p1 = (if truthy (search updatedFilters)
                then paramsSet ''search'' (the (search updatedFilters)) p0 else p0);
          p2 = (case categories updatedFilters of
                  Some (c # cs) \<Rightarrow> paramsSet ''category'' c p1
                | _ \<Rightarrow> p1);
          p3 = (if truthy (sortBy updatedFilters)
                then paramsSet ''sort'' (the (sortBy updatedFilters)) p2 else p2);
          p4 = (if truthy (sortOrder updatedFilters)
                then paramsSet ''order'' (the (sortOrder updatedFilters)) p3 else p3)
      in p4)"

definition applyFilters :: "blogListView \<Rightarrow> partialFilters \<Rightarrow> blogListView" where
  "applyFilters st newFilters =
     (let updatedFilters = (spreadFilters (filters st) newFilters)\<lparr>offset := Some (Fin 0)\<rparr>
      in st\<lparr>filters := updatedFilters, searchParams := urlOfFilters updatedFilters\<rparr>)"




text \<open>The partial update that has no key.\<close>

definition noUpdate :: partialFilters where
  "noUpdate = \<lparr> searchP = None, categoriesP = None, tagsP = None, authorP = None,
       statusP = None, sortByP = None, sortOrderP = None, limitP = None, offsetP = None \<rparr>"

definition handleCategoryToggle :: "blogListView \<Rightarrow> string \<Rightarrow> blogListView" where
  "handleCategoryToggle st categorySlug =
     (let newSelected =
            (if categorySlug \<in> set (selectedCategories st)
             then filter (\<lambda>c. c \<noteq> categorySlug) (selectedCategories st)
             else selectedCategories st @ [categorySlug])
      in applyFilters (st\<lparr>selectedCategories := newSelected\<rparr>)
           (noUpdate\<lparr>categoriesP := Some (if newSelected \<noteq> [] then Some newSelected else None)\<rparr>))"

subsection \<open>Search\<close>

definition handleSearch :: "searchView \<Rightarrow> string \<Rightarrow> string list \<Rightarrow> searchView" where
  "handleSearch st query categoryFilters =
     (let searchFilters =
            \<lparr> search = (if query \<noteq> [] then Some query else None),
              categories = (if categoryFilters \<noteq> [] then Some categoryFilters else None),
              tags = None, author = None,
              status = Some ''published'',
              sortBy = Some ''createdAt'',
              sortOrder = Some ''desc'',
              limit = Some (Fin 20),
              offset = None \<rparr>;
          p0 = [];
          p1 = (if query \<noteq> [] then paramsSet ''q'' query p0 else p0);
          p2 = (case categoryFilters of c # cs \<Rightarrow> paramsSet ''category'' c p1 | [] \<Rightarrow> p1)
      in st\<lparr>filters := searchFilters, searchSubmitted := True, searchParams := p2\<rparr>)"

definition handleCategoryToggleSearch :: "searchView \<Rightarrow> string \<Rightarrow> searchView" where
  "handleCategoryToggleSearch st categorySlug =
     (let newSelected =
            (if categorySlug \<in> set (selectedCategories st)
             then filter (\<lambda>c. c \<noteq> categorySlug) (selectedCategories st)
             else [categorySlug])
      in handleSearch (st\<lparr>selectedCategories := newSelected\<rparr>) (searchQuery st) newSelected)"

definition clearSearch :: "searchView \<Rightarrow> searchView" where
  "clearSearch st =
     st\<lparr> searchQuery := [], selectedCategories := [], searchSubmitted := False,
         searchParams := [],
         filters := \<lparr> search = None, categories = None, tags = None, author = None,
                       status = Some ''published'', sortBy = Some ''createdAt'',
                       sortOrder = Some ''desc'', limit = Some (Fin 20), offset = None \<rparr> \<rparr>"

text \<open>
  The two handlers of the Search view that write the category selection, as user
  events, and a run of the view over a sequence of them.
\<close>

datatype searchEvent = CategoryToggle string | ClearSearch

fun searchStep :: "searchView \<Rightarrow> searchEvent \<Rightarrow> searchView" where
  "searchStep st (CategoryToggle categorySlug) = handleCategoryToggleSearch st categorySlug"
| "searchStep st ClearSearch = clearSearch st"

definition searchRun :: "searchView \<Rightarrow> searchEvent list \<Rightarrow> searchView" where
  "searchRun st evs = foldl searchStep st evs"

subsection \<open>Example states\<close>

text \<open>
  A BlogList state on page three of the published blogs with the default sort, and a
  Search view with nothing selected.
\<close>

definition exampleFilters :: blogFilters where
  "exampleFilters =
     \<lparr> search = None, categories = None, tags = None, author = None,
       status = Some ''published'', sortBy = Some ''createdAt'', sortOrder = Some ''desc'',
       limit = Some (Fin 12), offset = Some (Fin 24) \<rparr>"

definition exampleBlogList :: blogListView where
  "exampleBlogList =
     \<lparr> filters = exampleFilters, searchParams = [], selectedCategories = [],
       localSearch = [] \<rparr>"




definition exampleSearch :: searchView where
  "exampleSearch =
     \<lparr> filters = exampleFilters, searchParams = [], selectedCategories = [],
       searchQuery = [], searchSubmitted = False \<rparr>"

section \<open>Properties of the filter and query state\<close>

lemma selectedCategories_toggle_search:
  "selectedCategories (handleCategoryToggleSearch st c) =
     (if c \<in> set (selectedCategories st)
      then filter (\<lambda>x. x \<noteq> c) (selectedCategories st) else [c])"
  by (simp add: handleCategoryToggleSearch_def handleSearch_def Let_def)

lemma selectedCategories_toggle_list:
  "selectedCategories (handleCategoryToggle st c) =
     (if c \<in> set (selectedCategories st)
      then filter (\<lambda>x. x \<noteq> c) (selectedCategories st)
      else selectedCategories st @ [c])"
  by (simp add: handleCategoryToggle_def applyFilters_def Let_def)

lemma searchStep_at_most_one:
  assumes "length (selectedCategories st) \<le> 1"
  shows "length (selectedCategories (searchStep st ev)) \<le> 1"
proof (cases ev)
  case (CategoryToggle c)
  have "length (filter (\<lambda>x. x \<noteq> c) (selectedCategories st)) \<le> length (selectedCategories st)"
    by (rule length_filter_le)
  from this assms have "length (filter (\<lambda>x. x \<noteq> c) (selectedCategories st)) \<le> 1"
    by (rule le_trans)
  with CategoryToggle show ?thesis
    by (simp add: selectedCategories_toggle_search)
next
  case ClearSearch
  then show ?thesis by (simp add: clearSearch_def)
qed

lemma searchRun_at_most_one:
  "length (selectedCategories st) \<le> 1 \<Longrightarrow> length (selectedCategories (searchRun st evs)) \<le> 1"
  unfolding searchRun_def
proof (induction evs arbitrary: st)
  case Nil
  then show ?case by simp
next
  case (Cons ev evs)
  from Cons.prems have "length (selectedCategories (searchStep st ev)) \<le> 1"
    by (rule searchStep_at_most_one)
  then show ?case using Cons.IH by simp
qed

subsection \<open>Integers in JavaScript arithmetic\<close>












subsection \<open>The claims on the filter state\<close>

text \<open>
  C4. \<open>applyFilters\<close> in the BlogList view stores a filter object whose offset is 0,
  whatever the offset was before and whatever the partial update holds (an offset
  included); every other field is the update's value where the update has the key and the
  previous value otherwise.
\<close>

theorem applyFilters_resets_offset:
  "offset (filters (applyFilters st p)) = Some (Fin 0)
   \<and> search (filters (applyFilters st p)) = spread (search (filters st)) (searchP p)
   \<and> categories (filters (applyFilters st p)) = spread (categories (filters st)) (categoriesP p)
   \<and> tags (filters (applyFilters st p)) = spread (tags (filters st)) (tagsP p)
   \<and> blogFilters.author (filters (applyFilters st p))
       = spread (blogFilters.author (filters st)) (authorP p)
   \<and> status (filters (applyFilters st p)) = spread (status (filters st)) (statusP p)
   \<and> sortBy (filters (applyFilters st p)) = spread (sortBy (filters st)) (sortByP p)
   \<and> sortOrder (filters (applyFilters st p)) = spread (sortOrder (filters st)) (sortOrderP p)
   \<and> limit (filters (applyFilters st p)) = spread (limit (filters st)) (limitP p)"
  by (simp add: applyFilters_def spreadFilters_def Let_def)

theorem applyFilters_resets_offset_witness:
  "offset (filters exampleBlogList) = Some (Fin 24)
   \<and> offset (filters (applyFilters exampleBlogList (noUpdate\<lparr>searchP := Some (Some ''x'')\<rparr>)))
       = Some (Fin 0)
   \<and> search (filters (applyFilters exampleBlogList (noUpdate\<lparr>searchP := Some (Some ''x'')\<rparr>)))
       = Some ''x''
   \<and> limit (filters (applyFilters exampleBlogList (noUpdate\<lparr>searchP := Some (Some ''x'')\<rparr>)))
       = Some (Fin 12)"
  using applyFilters_resets_offset
          [of exampleBlogList "noUpdate\<lparr>searchP := Some (Some ''x'')\<rparr>"]
  by (simp add: exampleBlogList_def exampleFilters_def noUpdate_def spread_def)




text \<open>
  C6, as stated, fails: after \<^verbatim>\<open>applyFilters({search: "x"})\<close> on the default sort
  \<^verbatim>\<open>createdAt\<close>/\<^verbatim>\<open>desc\<close> the URL carries \<^verbatim>\<open>sort=createdAt\<close> and \<^verbatim>\<open>order=desc\<close>.
\<close>

theorem applyFilters_url_default_sort_counterexample:
  "sortBy (filters (applyFilters exampleBlogList (noUpdate\<lparr>searchP := Some (Some ''x'')\<rparr>)))
     = Some ''createdAt''
   \<and> sortOrder (filters (applyFilters exampleBlogList (noUpdate\<lparr>searchP := Some (Some ''x'')\<rparr>)))
     = Some ''desc''
   \<and> searchParams (applyFilters exampleBlogList (noUpdate\<lparr>searchP := Some (Some ''x'')\<rparr>))
     = [(''search'', ''x''), (''sort'', ''createdAt''), (''order'', ''desc'')]"
  by (simp add: applyFilters_def spreadFilters_def urlOfFilters_def Let_def truthy_def
        exampleBlogList_def exampleFilters_def noUpdate_def spread_def)

text \<open>
  C6, amended. After every call to \<open>applyFilters\<close> the URL query is made of exactly these
  parameters of the resulting filter, in this order: \<^verbatim>\<open>search\<close> when the search text is
  set and not empty, \<^verbatim>\<open>category\<close> with the first selected category when the selection is
  not empty, \<^verbatim>\<open>sort\<close> when \<open>sortBy\<close> is set and not empty, \<^verbatim>\<open>order\<close> when \<open>sortOrder\<close>
  is set and not empty. The defaults \<^verbatim>\<open>createdAt\<close> and \<^verbatim>\<open>desc\<close> are written like any
  other value.
\<close>

theorem applyFilters_url:
  "searchParams (applyFilters st p) =
     (case search (filters (applyFilters st p)) of
        None \<Rightarrow> [] | Some s \<Rightarrow> if s = [] then [] else [(''search'', s)])
   @ (case categories (filters (applyFilters st p)) of
        None \<Rightarrow> [] | Some cs \<Rightarrow> (case cs of [] \<Rightarrow> [] | c # _ \<Rightarrow> [(''category'', c)]))
   @ (case sortBy (filters (applyFilters st p)) of
        None \<Rightarrow> [] | Some s \<Rightarrow> if s = [] then [] else [(''sort'', s)])
   @ (case sortOrder (filters (applyFilters st p)) of
        None \<Rightarrow> [] | Some s \<Rightarrow> if s = [] then [] else [(''order'', s)])"
  by (simp add: applyFilters_def urlOfFilters_def Let_def truthy_def
        split: option.splits list.splits)

theorem applyFilters_url_witness:
  "searchParams (applyFilters exampleBlogList
       (noUpdate\<lparr>categoriesP := Some (Some [''tech'', ''art'']), sortByP := Some (Some ''likes'')\<rparr>))
     = [(''category'', ''tech''), (''sort'', ''likes''), (''order'', ''desc'')]"
  using applyFilters_url [of exampleBlogList
       "noUpdate\<lparr>categoriesP := Some (Some [''tech'', ''art'']), sortByP := Some (Some ''likes'')\<rparr>"]
  by (simp add: applyFilters_def spreadFilters_def exampleBlogList_def exampleFilters_def
        noUpdate_def spread_def Let_def)

text \<open>
  C7. In the Search view a toggle of a category that is not selected replaces the whole
  selection by that one category, and a toggle of a selected category removes it; so a
  selection of at most one category stays one of at most one category under every sequence
  of toggles and clears, and \<^verbatim>\<open>tech\<close> then \<^verbatim>\<open>science\<close> from the empty selection leaves
  \<^verbatim>\<open>science\<close> alone. In the BlogList view the toggle of a category that is not selected
  appends it, so the same two toggles leave both selected.
\<close>

theorem category_toggle_single_selection:
  assumes "length (selectedCategories st) \<le> 1"
  shows "length (selectedCategories (searchRun st evs)) \<le> 1
   \<and> selectedCategories (handleCategoryToggleSearch st c)
       = (if c \<in> set (selectedCategories st) then [] else [c])
   \<and> selectedCategories (handleCategoryToggleSearch any c)
       = (if c \<in> set (selectedCategories any)
          then filter (\<lambda>x. x \<noteq> c) (selectedCategories any) else [c])
   \<and> selectedCategories
        (handleCategoryToggleSearch
           (handleCategoryToggleSearch (any\<lparr>selectedCategories := []\<rparr>) ''tech'') ''science'')
       = [''science'']
   \<and> selectedCategories (handleCategoryToggle b c)
       = (if c \<in> set (selectedCategories b)
          then filter (\<lambda>x. x \<noteq> c) (selectedCategories b)
          else selectedCategories b @ [c])
   \<and> selectedCategories
        (handleCategoryToggle
           (handleCategoryToggle (b\<lparr>selectedCategories := []\<rparr>) ''tech'') ''science'')
       = [''tech'', ''science'']"
proof -
  have one: "c \<in> set (selectedCategories st) \<Longrightarrow> selectedCategories st = [c]"
    using assms by (cases "selectedCategories st") auto
  have "selectedCategories (handleCategoryToggleSearch st c)
       = (if c \<in> set (selectedCategories st) then [] else [c])"
    using one by (auto simp: selectedCategories_toggle_search)
  then show ?thesis
    using searchRun_at_most_one [OF assms, of evs]
    by (simp add: selectedCategories_toggle_search selectedCategories_toggle_list)
qed

theorem category_toggle_single_selection_witness:
  "length (selectedCategories exampleSearch) \<le> 1
   \<and> selectedCategories
        (searchRun exampleSearch [CategoryToggle ''tech'', CategoryToggle ''science''])
       = [''science'']
   \<and> selectedCategories
        (handleCategoryToggle (handleCategoryToggle exampleBlogList ''tech'') ''science'')
       = [''tech'', ''science'']"
proof -
  have h: "length (selectedCategories exampleSearch) \<le> 1"
    by (simp add: exampleSearch_def)
  have sel: "selectedCategories exampleBlogList = []"
    by (simp add: exampleBlogList_def)
  have "exampleBlogList\<lparr>selectedCategories := []\<rparr> = exampleBlogList"
    by (simp add: exampleBlogList_def)
  with h category_toggle_single_selection
         [OF h, of "[CategoryToggle ''tech'', CategoryToggle ''science'']" "''tech''"
            "exampleSearch" exampleBlogList]
  show ?thesis
    by (simp add: searchRun_def selectedCategories_toggle_search exampleSearch_def)
qed

section \<open>Properties of the comment tree builder\<close>

subsection \<open>The first pass\<close>

lemma length_inputComments [simp]: "length (inputComments h as) = length as"
  by (simp add: inputComments_def)

text \<open>
  On an array of valid references the first pass appends one copy per element and
  leaves the lookup \<open>lookupAfter\<close>.
\<close>

lemma firstPass_shape:
  "\<forall>a\<in>set as. a < length h0 \<Longrightarrow>
   firstPass as (h0, m0) =
     Inr (h0 @ map (\<lambda>a. (h0 ! a)\<lparr>replies := Some []\<rparr>) as,
          lookupAfter m0 (length h0) (map (\<lambda>a. h0 ! a) as))"
proof (induction as arbitrary: h0 m0)
  case Nil
  then show ?case by simp
next
  case (Cons a as)
  let ?h = "h0 @ [(h0 ! a)\<lparr>replies := Some []\<rparr>]"
  from Cons.prems have a: "a < length h0" and as: "\<forall>b\<in>set as. b < length h0" by simp_all
  from as have as': "\<forall>b\<in>set as. b < length ?h" by auto
  have same: "map (\<lambda>b. ?h ! b) as = map (\<lambda>b. h0 ! b) as"
    using as by (simp add: nth_append)
  have same': "map (\<lambda>b. (?h ! b)\<lparr>replies := Some []\<rparr>) as = map (\<lambda>b. (h0 ! b)\<lparr>replies := Some []\<rparr>) as"
    using as by (simp add: nth_append)
  have ih: "firstPass as (?h, m0(id' (h0 ! a) \<mapsto> length h0)) =
     Inr (?h @ map (\<lambda>a. (?h ! a)\<lparr>replies := Some []\<rparr>) as,
          lookupAfter (m0(id' (h0 ! a) \<mapsto> length h0)) (length ?h) (map (\<lambda>a. ?h ! a) as))"
    by (rule Cons.IH [OF as'])
  show ?case
    using a by (simp add: deref_def ih same same')
qed

lemma lookupAfter_range:
  "lookupAfter m base cs k = Some a \<Longrightarrow>
   m k = Some a \<or> (base \<le> a \<and> a < base + length cs \<and> id' (cs ! (a - base)) = k)"
proof (induction cs arbitrary: m base)
  case Nil
  then show ?case by simp
next
  case (Cons c cs)
  from Cons.prems have "lookupAfter (m(id' c \<mapsto> base)) (Suc base) cs k = Some a" by simp
  from Cons.IH [OF this]
  consider "(m(id' c \<mapsto> base)) k = Some a"
    | "Suc base \<le> a" "a < Suc base + length cs" "id' (cs ! (a - Suc base)) = k"
    by blast
  then show ?case
  proof cases
    case 1
    then show ?thesis by (auto split: if_splits)
  next
    case 2
    then have "(c # cs) ! (a - base) = cs ! (a - Suc base)"
      by (simp add: nth_Cons')
    with 2 show ?thesis by simp
  qed
qed

lemma lookupAfter_dom:
  "k \<in> id' ` set cs \<or> m k \<noteq> None \<Longrightarrow> lookupAfter m base cs k \<noteq> None"
  by (induction cs arbitrary: m base) auto

lemma lookupAfter_notin:
  "k \<notin> id' ` set cs \<Longrightarrow> lookupAfter m base cs k = m k"
  by (induction cs arbitrary: m base) auto

lemma lookupAfter_distinct:
  "distinct (map id' cs) \<Longrightarrow> i < length cs \<Longrightarrow>
   lookupAfter m base cs (id' (cs ! i)) = Some (base + i)"
proof (induction cs arbitrary: m base i)
  case Nil
  then show ?case by simp
next
  case (Cons c cs)
  show ?case
  proof (cases i)
    case 0
    from Cons.prems have "id' c \<notin> id' ` set cs" by simp
    then show ?thesis using 0 by (simp add: lookupAfter_notin)
  next
    case (Suc j)
    with Cons.prems have "distinct (map id' cs)" "j < length cs" by simp_all
    from Cons.IH [OF this] show ?thesis using Suc by simp
  qed
qed

subsection \<open>The second pass\<close>

text \<open>
  The second pass changes no length, pushes \<open>rootsFor\<close> onto the roots and
  \<open>kidsFor\<close> onto each object; it reads the input objects, which it never writes.
\<close>

lemma addKids_Nil [simp]: "addKids cell [] = cell"
  by (simp add: addKids_def)

lemma addKids_snoc:
  "addKids (cell\<lparr>replies := Some (repliesOr cell @ [t])\<rparr>) ks = addKids cell (t # ks)"
  by (simp add: addKids_def repliesOr_def)

lemma kidsFor_Cons:
  "kidsFor m (c # cs) p =
     (case parentRef c of
        None \<Rightarrow> kidsFor m cs p
      | Some k \<Rightarrow> if m k = Some p then the (m (id' c)) # kidsFor m cs p else kidsFor m cs p)"
  by (simp add: kidsFor_def split: option.splits)

lemma rootsFor_Cons:
  "rootsFor m (c # cs) =
     (if parentRef c = None then the (m (id' c)) # rootsFor m cs else rootsFor m cs)"
  by (simp add: rootsFor_def)

lemma secondPass_shape:
  assumes "\<forall>a\<in>set as. a < n0" and "n0 \<le> length hc"
    and "\<forall>k a. m k = Some a \<longrightarrow> n0 \<le> a \<and> a < length hc"
    and "\<forall>a\<in>set as. m (id' (hc ! a)) \<noteq> None"
  shows "\<exists>hc'. secondPass m as (hc, rs) = Inr (hc', rs @ rootsFor m (map (\<lambda>a. hc ! a) as))
           \<and> length hc' = length hc
           \<and> (\<forall>p<length hc. hc' ! p = addKids (hc ! p) (kidsFor m (map (\<lambda>a. hc ! a) as) p))"
  using assms
proof (induction as arbitrary: hc rs)
  case Nil
  then show ?case by (simp add: rootsFor_def kidsFor_def)
next
  case (Cons a as)
  let ?c = "hc ! a"
  from Cons.prems have a: "a < n0" "a < length hc" and as: "\<forall>b\<in>set as. b < n0" by auto
  from Cons.prems obtain t where t: "m (id' ?c) = Some t" by auto
  have der: "deref hc a = Some ?c" using a by (simp add: deref_def)
  show ?case
  proof (cases "parentRef ?c")
    case None
    have att: "attach m a (hc, rs) = Inr (hc, rs @ [t])"
      by (simp add: attach_def der t None)
    from Cons.IH [OF as Cons.prems(2) Cons.prems(3), of "rs @ [t]"] Cons.prems(4)
    obtain hc' where "secondPass m as (hc, rs @ [t]) = Inr (hc', (rs @ [t]) @ rootsFor m (map (\<lambda>a. hc ! a) as))"
      "length hc' = length hc"
      "\<forall>p<length hc. hc' ! p = addKids (hc ! p) (kidsFor m (map (\<lambda>a. hc ! a) as) p)"
      by auto
    then show ?thesis
      by (simp add: att rootsFor_Cons kidsFor_Cons None t)
  next
    case (Some k)
    show ?thesis
    proof (cases "m k")
      case None
      have att: "attach m a (hc, rs) = Inr (hc, rs)"
        by (simp add: attach_def der t Some None)
      from Cons.IH [OF as Cons.prems(2) Cons.prems(3), of rs] Cons.prems(4)
      obtain hc' where "secondPass m as (hc, rs) = Inr (hc', rs @ rootsFor m (map (\<lambda>a. hc ! a) as))"
        "length hc' = length hc"
        "\<forall>p<length hc. hc' ! p = addKids (hc ! p) (kidsFor m (map (\<lambda>a. hc ! a) as) p)"
        by auto
      then show ?thesis
        by (simp add: att rootsFor_Cons kidsFor_Cons Some None)
    next
      case (Some par)
      note k = \<open>parentRef ?c = Some k\<close>
      from Cons.prems(3) Some have par: "n0 \<le> par" "par < length hc" by auto
      let ?h2 = "hc[par := (hc ! par)\<lparr>replies := Some (repliesOr (hc ! par) @ [t])\<rparr>]"
      have derp: "deref hc par = Some (hc ! par)" using par by (simp add: deref_def)
      have att: "attach m a (hc, rs) = Inr (?h2, rs)"
        by (simp add: attach_def der derp t k Some)
      have same: "map (\<lambda>b. ?h2 ! b) as = map (\<lambda>b. hc ! b) as"
        using as par by auto
      have p2: "n0 \<le> length ?h2" using Cons.prems(2) by simp
      have p3: "\<forall>k a. m k = Some a \<longrightarrow> n0 \<le> a \<and> a < length ?h2"
        using Cons.prems(3) by simp
      have p4: "\<forall>b\<in>set as. m (id' (?h2 ! b)) \<noteq> None"
        using Cons.prems(4) as par by auto
      from Cons.IH [OF as p2 p3 p4, of rs]
      obtain hc' where r: "secondPass m as (?h2, rs) = Inr (hc', rs @ rootsFor m (map (\<lambda>a. ?h2 ! a) as))"
        "length hc' = length ?h2"
        "\<forall>p<length ?h2. hc' ! p = addKids (?h2 ! p) (kidsFor m (map (\<lambda>a. ?h2 ! a) as) p)"
        by blast
      have "\<forall>p<length hc. hc' ! p = addKids (hc ! p) (kidsFor m (map (\<lambda>a. hc ! a) (a # as)) p)"
      proof (intro allI impI)
        fix p assume p: "p < length hc"
        with r(3) have e: "hc' ! p = addKids (?h2 ! p) (kidsFor m (map (\<lambda>a. hc ! a) as) p)"
          by (simp add: same)
        show "hc' ! p = addKids (hc ! p) (kidsFor m (map (\<lambda>a. hc ! a) (a # as)) p)"
        proof (cases "p = par")
          case True
          then show ?thesis
            using e p by (simp add: kidsFor_Cons k Some t addKids_snoc)
        next
          case False
          then show ?thesis
            using e p by (auto simp add: kidsFor_Cons k Some)
        qed
      qed
      with r(1,2) show ?thesis
        by (simp add: att same rootsFor_Cons k)
    qed
  qed
qed

lemma organize_general:
  assumes "validInput h as"
  defines "cs \<equiv> inputComments h as"
  defines "m \<equiv> lookupAfter Map.empty (length h) cs"
  defines "h1 \<equiv> h @ map (\<lambda>c. c\<lparr>replies := Some []\<rparr>) cs"
  shows "\<exists>h'. organizeComments h as = Inr (h', rootsFor m cs)
           \<and> length h' = length h + length as
           \<and> (\<forall>p<length h + length as. h' ! p = addKids (h1 ! p) (kidsFor m cs p))"
proof -
  from assms(1) have v: "\<forall>a\<in>set as. a < length h"
    by (simp add: validInput_def list_all_iff)
  have fp: "firstPass as (h, Map.empty) = Inr (h1, m)"
    using firstPass_shape [OF v, of Map.empty]
    by (simp add: h1_def m_def cs_def inputComments_def comp_def)
  have same: "map (\<lambda>a. h1 ! a) as = cs"
    using v by (simp add: h1_def cs_def inputComments_def nth_append)
  have len: "length h1 = length h + length as"
    by (simp add: h1_def cs_def inputComments_def)
  have rng: "\<forall>k a. m k = Some a \<longrightarrow> length h \<le> a \<and> a < length h1"
  proof (intro allI impI)
    fix k a assume "m k = Some a"
    from lookupAfter_range [OF this [unfolded m_def]]
    show "length h \<le> a \<and> a < length h1"
      by (simp add: len cs_def inputComments_def)
  qed
  have dom: "\<forall>a\<in>set as. m (id' (h1 ! a)) \<noteq> None"
  proof
    fix a assume a: "a \<in> set as"
    with v have "h1 ! a = h ! a" by (simp add: h1_def nth_append)
    moreover from a have "id' (h ! a) \<in> id' ` set cs"
      by (simp add: cs_def inputComments_def)
    ultimately show "m (id' (h1 ! a)) \<noteq> None"
      by (simp add: m_def lookupAfter_dom)
  qed
  have le: "length h \<le> length h1" by (simp add: len)
  from secondPass_shape [OF v le rng dom, of "[]"]
  show ?thesis
    by (simp add: organizeComments_def fp same len)
qed

lemma kidsFor_below:
  assumes "\<forall>k a. m k = Some a \<longrightarrow> n0 \<le> a" and "p < n0"
  shows "kidsFor m cs p = []"
proof -
  have "\<And>k. m k \<noteq> Some p" using assms by fastforce
  then show ?thesis by (simp add: kidsFor_def split: option.splits)
qed

lemma organize_frame:
  assumes "validInput h as"
  shows "\<exists>h' roots. organizeComments h as = Inr (h', roots) \<and> take (length h) h' = h"
proof -
  let ?cs = "inputComments h as"
  let ?m = "lookupAfter Map.empty (length h) ?cs"
  from organize_general [OF assms] obtain h' where
    r: "organizeComments h as = Inr (h', rootsFor ?m ?cs)"
       "length h' = length h + length as"
       "\<forall>p<length h + length as. h' ! p =
           addKids ((h @ map (\<lambda>c. c\<lparr>replies := Some []\<rparr>) ?cs) ! p) (kidsFor ?m ?cs p)"
    by blast
  have low: "\<forall>k a. ?m k = Some a \<longrightarrow> length h \<le> a"
    using lookupAfter_range [of Map.empty "length h" ?cs] by auto
  have "take (length h) h' = h"
  proof (rule nth_equalityI)
    show "length (take (length h) h') = length h" using r(2) by simp
  next
    fix p assume "p < length (take (length h) h')"
    then have p: "p < length h" by simp
    then have "h' ! p = addKids (h ! p) (kidsFor ?m ?cs p)"
      using r(3) by (simp add: nth_append)
    also have "\<dots> = h ! p" using kidsFor_below [OF low p] by simp
    finally show "take (length h) h' ! p = h ! p" using p by simp
  qed
  with r(1) show ?thesis by blast
qed

lemma id_addKids [simp]: "id' (addKids cell ks) = id' cell"
  by (simp add: addKids_def)


subsection \<open>Unique ids: the result in closed form\<close>

lemma filter_map_index:
  "map g (filter P xs) = map (\<lambda>i. g (xs ! i)) (filter (\<lambda>i. P (xs ! i)) [0..<length xs])"
proof -
  have "map g (filter P (map (\<lambda>i. xs ! i) [0..<length xs]))
      = map (\<lambda>i. g (xs ! i)) (filter (\<lambda>i. P (xs ! i)) [0..<length xs])"
    by (simp add: filter_map comp_def)
  then show ?thesis by (simp add: map_nth)
qed

lemma organize_spec:
  assumes v: "validInput h as" and d: "distinct (map id' (inputComments h as))"
  shows "organizeComments h as = Inr (specHeap h as, specRoots h as)"
proof -
  let ?cs = "inputComments h as"
  let ?n0 = "length h"
  let ?m = "lookupAfter Map.empty ?n0 ?cs"
  have n: "length ?cs = length as" by (simp add: inputComments_def)
  from organize_general [OF v] obtain h' where
    r: "organizeComments h as = Inr (h', rootsFor ?m ?cs)"
       "length h' = ?n0 + length as"
       "\<forall>p<?n0 + length as. h' ! p =
           addKids ((h @ map (\<lambda>c. c\<lparr>replies := Some []\<rparr>) ?cs) ! p) (kidsFor ?m ?cs p)"
    by blast
  have tgt: "\<And>i. i < length as \<Longrightarrow> ?m (id' (?cs ! i)) = Some (?n0 + i)"
    using lookupAfter_distinct [OF d] n by simp
  have inv: "\<And>k i. i < length as \<Longrightarrow> ?m k = Some (?n0 + i) \<longleftrightarrow> k = id' (?cs ! i)"
  proof -
    fix k i assume i: "i < length as"
    show "?m k = Some (?n0 + i) \<longleftrightarrow> k = id' (?cs ! i)"
    proof
      assume "?m k = Some (?n0 + i)"
      from lookupAfter_range [OF this] show "k = id' (?cs ! i)" by simp
    next
      assume "k = id' (?cs ! i)" then show "?m k = Some (?n0 + i)" using tgt [OF i] by simp
    qed
  qed
  have roots: "rootsFor ?m ?cs = specRoots h as"
    unfolding rootsFor_def specRoots_def rootIdx_def
    by (subst filter_map_index) (rule map_cong, simp, simp add: tgt n)
  have kids: "\<And>i. i < length as \<Longrightarrow>
      kidsFor ?m ?cs (?n0 + i) = map (\<lambda>j. ?n0 + j) (childIdx ?cs i)"
  proof -
    fix i assume i: "i < length as"
    have f: "filter (\<lambda>j. case parentRef (?cs ! j) of None \<Rightarrow> False
                          | Some k \<Rightarrow> ?m k = Some (?n0 + i)) [0..<length ?cs]
           = filter (\<lambda>j. parentRef (?cs ! j) = Some (id' (?cs ! i))) [0..<length ?cs]"
      by (rule filter_cong) (auto simp: inv [OF i] split: option.splits)
    show "kidsFor ?m ?cs (?n0 + i) = map (\<lambda>j. ?n0 + j) (childIdx ?cs i)"
      unfolding kidsFor_def childIdx_def
      by (subst filter_map_index, subst f) (rule map_cong, simp, simp add: tgt n)
  qed
  have "h' = specHeap h as"
  proof (rule nth_equalityI)
    show "length h' = length (specHeap h as)" by (simp add: r(2) specHeap_def)
  next
    fix p assume "p < length h'"
    then have p: "p < ?n0 + length as" by (simp add: r(2))
    show "h' ! p = specHeap h as ! p"
    proof (cases "p < ?n0")
      case True
      have low: "\<forall>k a. ?m k = Some a \<longrightarrow> ?n0 \<le> a"
        using lookupAfter_range [of Map.empty ?n0 ?cs] by auto
      from True show ?thesis
        using r(3) p kidsFor_below [OF low True] by (simp add: nth_append specHeap_def)
    next
      case False
      then obtain i where i: "p = ?n0 + i" "i < length as"
        using p by (metis add_diff_inverse_nat nat_add_left_cancel_less)
      have "h' ! p = addKids ((?cs ! i)\<lparr>replies := Some []\<rparr>) (map (\<lambda>j. ?n0 + j) (childIdx ?cs i))"
        using r(3) p i kids [OF i(2)] by (simp add: nth_append n)
      also have "\<dots> = (?cs ! i)\<lparr>replies := Some (map (\<lambda>j. ?n0 + j) (childIdx ?cs i))\<rparr>"
        by (simp add: addKids_def repliesOr_def)
      finally show ?thesis using i by (simp add: specHeap_def nth_append)
    qed
  qed
  with r(1) roots show ?thesis by simp
qed

subsection \<open>The depth-first flattening\<close>

text \<open>
  The flattening visits the roots and, for every object it visits, the replies of that
  object: the number of visits of \<open>a\<close> is the number of times \<open>a\<close> is a root plus the
  number of times it is a reply of a visited object.
\<close>

lemma flatten_count:
  "flatten d h xs = Some out \<Longrightarrow>
   count_list out a = count_list xs a + sum_list (map (\<lambda>b. count_list (repliesOf h b) a) out)"
proof (induction d h xs arbitrary: out rule: flatten.induct)
  case (1 d h)
  then show ?case by simp
next
  case (2 h a as)
  then show ?case by simp
next
  case (3 d h x xs)
  from "3.prems" obtain below rest where
    b: "flatten d h (repliesOf h x) = Some below" and
    r: "flatten (Suc d) h xs = Some rest" and
    out: "out = x # below @ rest"
    by (auto split: option.splits)
  from "3.IH"(1) [OF b] "3.IH"(2) [OF b r] show ?case
    by (simp add: out)
qed

lemma flatten_closed:
  "flatten d h xs = Some out \<Longrightarrow> set xs \<subseteq> S \<Longrightarrow>
   (\<forall>b\<in>S. set (repliesOf h b) \<subseteq> S) \<Longrightarrow> set out \<subseteq> S"
proof (induction d h xs arbitrary: out rule: flatten.induct)
  case (1 d h)
  then show ?case by simp
next
  case (2 h a as)
  then show ?case by simp
next
  case (3 d h x xs)
  from "3.prems"(1) obtain below rest where
    b: "flatten d h (repliesOf h x) = Some below" and
    r: "flatten (Suc d) h xs = Some rest" and
    out: "out = x # below @ rest"
    by (auto split: option.splits)
  from "3.prems" have x: "x \<in> S" and xs: "set xs \<subseteq> S" by simp_all
  from x "3.prems"(3) have "set (repliesOf h x) \<subseteq> S" by blast
  from "3.IH"(1) [OF b this "3.prems"(3)] "3.IH"(2) [OF b r xs "3.prems"(3)] x
  show ?case by (simp add: out)
qed

lemma flatten_mono:
  "flatten d h xs = Some out \<Longrightarrow> flatten (Suc d) h xs = Some out"
proof (induction d h xs arbitrary: out rule: flatten.induct)
  case (1 d h)
  then show ?case by simp
next
  case (2 h a as)
  then show ?case by simp
next
  case (3 d h x xs)
  from "3.prems" obtain below rest where
    b: "flatten d h (repliesOf h x) = Some below" and
    r: "flatten (Suc d) h xs = Some rest" and
    out: "out = x # below @ rest"
    by (auto split: option.splits)
  from "3.IH"(1) [OF b] "3.IH"(2) [OF b r] show ?case
    by (simp add: out)
qed

lemma sum_list_indicator:
  "sum_list (map (\<lambda>b. if b = x then 1 else 0) xs) = count_list xs x"
  by (induction xs) auto

lemma count_list_filter_upt:
  "count_list (filter P [0..<n]) i = (if i < n \<and> P i then 1 else 0)"
  by (induction n) auto

lemma count_list_shift:
  "count_list (map (\<lambda>j. n0 + j) (filter P [0..<n])) a =
     (if n0 \<le> a \<and> a < n0 + n \<and> P (a - n0) then 1 else (0::nat))"
proof (cases "n0 \<le> a")
  case True
  then obtain i where a: "a = n0 + i" using le_Suc_ex by blast
  have "inj (\<lambda>j. n0 + j)" by (simp add: inj_def)
  from count_list_map_conv [OF this] have
    "count_list (map (\<lambda>j. n0 + j) (filter P [0..<n])) (n0 + i) = count_list (filter P [0..<n]) i" .
  then show ?thesis by (simp add: a count_list_filter_upt)
next
  case False
  then have "a \<notin> set (map (\<lambda>j. n0 + j) (filter P [0..<n]))" by auto
  with False show ?thesis by simp
qed

subsection \<open>Parent chains\<close>

text \<open>
  The bound in \<open>rooted\<close> is no restriction: a parent chain that ends at all ends within
  \<open>length cs\<close> steps, since the sets \<open>rootedWithin cs k\<close> grow with \<open>k\<close> until they are stable.
\<close>

lemma reachesRoot_Suc: "reachesRoot cs k c \<Longrightarrow> reachesRoot cs (Suc k) c"
proof (induction k arbitrary: c)
  case 0
  then show ?case by simp
next
  case (Suc k)
  show ?case
  proof (cases "parentRef c")
    case None
    then show ?thesis by simp
  next
    case (Some pid)
    with Suc.prems obtain p where p: "find (\<lambda>p. id' p = pid) cs = Some p" "reachesRoot cs k p"
      by (auto split: option.splits)
    from Suc.IH [OF p(2)] have "reachesRoot cs (Suc k) p" .
    with Some p(1) show ?thesis by (simp del: reachesRoot.simps(2) add: reachesRoot.simps(2) [of cs "Suc k" c])
  qed
qed

lemma reachesRoot_mono:
  assumes "reachesRoot cs k c" and "k \<le> k'"
  shows "reachesRoot cs k' c"
  using assms(2,1)
  by (induction rule: dec_induct) (auto intro: reachesRoot_Suc simp del: reachesRoot.simps)

lemma rootedWithin_mono: "k \<le> k' \<Longrightarrow> rootedWithin cs k \<subseteq> rootedWithin cs k'"
  by (auto simp: rootedWithin_def reachesRoot_mono)

lemma find_in_set: "find P xs = Some x \<Longrightarrow> x \<in> set xs"
  by (auto simp: find_Some_iff)

lemma rootedWithin_stable_step:
  assumes "rootedWithin cs (Suc k) = rootedWithin cs k"
  shows "rootedWithin cs (Suc (Suc k)) = rootedWithin cs (Suc k)"
proof -
  have eq: "\<And>p. p \<in> set cs \<Longrightarrow> reachesRoot cs (Suc k) p = reachesRoot cs k p"
    using assms by (auto simp: rootedWithin_def)
  have "\<And>c. reachesRoot cs (Suc (Suc k)) c = reachesRoot cs (Suc k) c"
  proof -
    fix c
    show "reachesRoot cs (Suc (Suc k)) c = reachesRoot cs (Suc k) c"
    proof (cases "parentRef c")
      case None
      then show ?thesis by simp
    next
      case (Some pid)
      show ?thesis
      proof (cases "find (\<lambda>p. id' p = pid) cs")
        case None
        with Some show ?thesis by simp
      next
        case (Some p)
        from find_in_set [OF this] eq have "reachesRoot cs (Suc k) p = reachesRoot cs k p" by blast
        with Some \<open>parentRef c = Some pid\<close> show ?thesis by simp
      qed
    qed
  qed
  then show ?thesis by (simp add: rootedWithin_def)
qed

lemma rootedWithin_stable:
  assumes "rootedWithin cs (Suc k) = rootedWithin cs k"
  shows "rootedWithin cs (k + m) = rootedWithin cs k"
proof (induction m)
  case 0
  show ?case by simp
next
  case (Suc m)
  have "rootedWithin cs (Suc (k + m)) = rootedWithin cs (k + m)"
  proof (induction m)
    case 0
    from assms show ?case by simp
  next
    case (Suc m)
    from rootedWithin_stable_step [OF Suc] show ?case by simp
  qed
  with Suc show ?case by simp
qed

lemma rootedWithin_grows:
  assumes "\<forall>j\<le>k. rootedWithin cs (Suc j) \<noteq> rootedWithin cs j"
  shows "Suc k \<le> card (rootedWithin cs (Suc k))"
  using assms
proof (induction k)
  case 0
  have fin: "finite (rootedWithin cs (Suc 0))" by (simp add: rootedWithin_def)
  from 0 rootedWithin_mono [of 0 "Suc 0" cs] have "rootedWithin cs (Suc 0) \<noteq> {}" by auto
  with fin show ?case by (simp add: Suc_le_eq card_gt_0_iff)
next
  case (Suc k)
  then have ih: "Suc k \<le> card (rootedWithin cs (Suc k))" by simp
  from Suc.prems rootedWithin_mono [of "Suc k" "Suc (Suc k)" cs]
  have "rootedWithin cs (Suc k) \<subset> rootedWithin cs (Suc (Suc k))" by auto
  moreover have "finite (rootedWithin cs (Suc (Suc k)))" by (simp add: rootedWithin_def)
  ultimately have "card (rootedWithin cs (Suc k)) < card (rootedWithin cs (Suc (Suc k)))"
    by (rule psubset_card_mono [rotated])
  with ih show ?case by simp
qed

lemma reachesRoot_bound:
  assumes c: "c \<in> set cs" and r: "reachesRoot cs k c"
  shows "reachesRoot cs (length cs) c"
proof -
  have "card (rootedWithin cs (Suc (length cs))) \<le> card (set cs)"
    by (rule card_mono) (auto simp: rootedWithin_def)
  also have "\<dots> \<le> length cs" by (rule card_length)
  finally have "\<not> Suc (length cs) \<le> card (rootedWithin cs (Suc (length cs)))" by simp
  with rootedWithin_grows [of "length cs" cs] obtain j where
    j: "j \<le> length cs" "rootedWithin cs (Suc j) = rootedWithin cs j" by blast
  from c r have "c \<in> rootedWithin cs (j + k)"
    using reachesRoot_mono [of cs k c "j + k"] by (simp add: rootedWithin_def)
  with rootedWithin_stable [OF j(2), of k] have "c \<in> rootedWithin cs j" by simp
  with rootedWithin_mono [OF j(1), of cs] show ?thesis by (auto simp: rootedWithin_def)
qed

lemma rooted_iff: "rooted cs \<longleftrightarrow> (\<forall>c\<in>set cs. \<exists>k. reachesRoot cs k c)"
  by (auto simp: rooted_def list_all_iff intro: reachesRoot_bound)

subsection \<open>The flattening of the closed form\<close>

lemma spec_cell:
  "i < length as \<Longrightarrow> specHeap h as ! (length h + i) =
     (inputComments h as ! i)\<lparr>replies := Some (map (\<lambda>j. length h + j) (childIdx (inputComments h as) i))\<rparr>"
  by (simp add: specHeap_def nth_append)

lemma spec_length: "length (specHeap h as) = length h + length as"
  by (simp add: specHeap_def)

lemma spec_replies:
  "i < length as \<Longrightarrow> repliesOf (specHeap h as) (length h + i) =
     map (\<lambda>j. length h + j) (childIdx (inputComments h as) i)"
  by (simp add: repliesOf_def deref_def spec_length spec_cell repliesOr_def)

lemma spec_stored:
  "i < length as \<Longrightarrow> stored (specHeap h as ! (length h + i)) = stored (inputComments h as ! i)"
  by (simp add: spec_cell stored_def)

lemma same_id_index:
  assumes "distinct (map id' cs)" and "i < length cs" and "j < length cs"
  shows "id' (cs ! i) = id' (cs ! j) \<longleftrightarrow> i = j"
proof -
  from assms have "map id' cs ! i = map id' cs ! j \<longleftrightarrow> i = j"
    by (simp add: nth_eq_iff_index_eq del: nth_map)
  with assms show ?thesis by simp
qed

lemma find_id:
  assumes "distinct (map id' cs)" and "i < length cs"
  shows "find (\<lambda>p. id' p = id' (cs ! i)) cs = Some (cs ! i)"
proof (cases "find (\<lambda>p. id' p = id' (cs ! i)) cs")
  case None
  then have "\<forall>x\<in>set cs. id' x \<noteq> id' (cs ! i)" by (simp add: find_None_iff)
  with assms(2) have False using nth_mem by blast
  then show ?thesis ..
next
  case (Some x)
  then obtain j where j: "j < length cs" "id' (cs ! j) = id' (cs ! i)" "x = cs ! j"
    by (auto simp: find_Some_iff)
  from same_id_index [OF assms(1) j(1) assms(2)] j(2) have "j = i" by simp
  with Some j show ?thesis by simp
qed

lemma find_id_index:
  assumes "find (\<lambda>p. id' p = pid) cs = Some c"
  shows "\<exists>i<length cs. c = cs ! i \<and> id' (cs ! i) = pid"
  using assms by (auto simp: find_Some_iff)

lemma reachesRoot_child:
  assumes "distinct (map id' cs)" and "i < length cs"
    and "parentRef c = Some (id' (cs ! i))"
  shows "reachesRoot cs (Suc k) c = reachesRoot cs k (cs ! i)"
  using assms by (simp add: find_id)

lemma in_childIdx:
  "j \<in> set (childIdx cs i) \<longleftrightarrow> j < length cs \<and> parentRef (cs ! j) = Some (id' (cs ! i))"
  by (auto simp: childIdx_def)

lemma in_rootIdx:
  "j \<in> set (rootIdx cs) \<longleftrightarrow> j < length cs \<and> parentRef (cs ! j) = None"
  by (auto simp: rootIdx_def)

lemma spec_roots_copies:
  assumes "\<And>i. i < length as \<Longrightarrow> parentRef (inputComments h as ! i) = None \<Longrightarrow> Q i"
  shows "set (specRoots h as) \<subseteq> copies h as Q"
  using assms by (auto simp: specRoots_def copies_def in_rootIdx)

lemma spec_replies_copies:
  assumes "\<And>i j. i < length as \<Longrightarrow> j < length as \<Longrightarrow> Q i \<Longrightarrow>
             parentRef (inputComments h as ! j) = Some (id' (inputComments h as ! i)) \<Longrightarrow> Q j"
  shows "\<forall>b\<in>copies h as Q. set (repliesOf (specHeap h as) b) \<subseteq> copies h as Q"
proof
  fix b assume "b \<in> copies h as Q"
  then obtain i where i: "b = length h + i" "i < length as" "Q i"
    by (auto simp: copies_def) (metis add_diff_inverse_nat nat_add_left_cancel_less not_less)
  show "set (repliesOf (specHeap h as) b) \<subseteq> copies h as Q"
    using assms [OF i(2) _ i(3)] i(2)
    by (auto simp: i(1) spec_replies in_childIdx copies_def)
qed

lemma flatten_spec_copies:
  assumes "flatten d (specHeap h as) (specRoots h as) = Some out"
    and "\<And>i. i < length as \<Longrightarrow> parentRef (inputComments h as ! i) = None \<Longrightarrow> Q i"
    and "\<And>i j. i < length as \<Longrightarrow> j < length as \<Longrightarrow> Q i \<Longrightarrow>
             parentRef (inputComments h as ! j) = Some (id' (inputComments h as ! i)) \<Longrightarrow> Q j"
  shows "set out \<subseteq> copies h as Q"
  by (rule flatten_closed [OF assms(1) spec_roots_copies spec_replies_copies])
     (use assms(2,3) in blast)+

lemma count_spec_roots:
  "count_list (specRoots h as) a =
     (if length h \<le> a \<and> a < length h + length as
         \<and> parentRef (inputComments h as ! (a - length h)) = None then 1 else 0)"
  by (simp add: specRoots_def rootIdx_def count_list_shift)

lemma count_spec_replies:
  "j < length as \<Longrightarrow> count_list (repliesOf (specHeap h as) (length h + j)) a =
     (if length h \<le> a \<and> a < length h + length as
         \<and> parentRef (inputComments h as ! (a - length h)) = Some (id' (inputComments h as ! j))
      then 1 else 0)"
  by (simp add: spec_replies childIdx_def count_list_shift)

text \<open>
  Enough fuel: with unique ids every object that the flattening visits is the copy of a
  comment whose parent chain ends, so its depth is below \<open>length as\<close> and the
  flattening returns within depth \<open>length as + 1\<close>, whatever cycles and orphans the
  collection has.
\<close>

lemma flatten_spec_total:
  assumes d: "distinct (map id' (inputComments h as))"
  shows "H = specHeap h as \<Longrightarrow>
         \<forall>a\<in>set xs. \<exists>i<length as. a = length h + i
             \<and> (\<exists>k. reachesRoot (inputComments h as) k (inputComments h as ! i))
             \<and> (\<forall>k<e. \<not> reachesRoot (inputComments h as) k (inputComments h as ! i)) \<Longrightarrow>
         length as < fuel + e \<Longrightarrow> flatten fuel H xs \<noteq> None"
proof (induction fuel H xs arbitrary: e rule: flatten.induct)
  case (1 d h)
  then show ?case by simp
next
  case (2 H a xs)
  let ?cs = "inputComments h as"
  from "2.prems"(2) obtain i k where i: "i < length as" "reachesRoot ?cs k (?cs ! i)"
      "\<forall>k<e. \<not> reachesRoot ?cs k (?cs ! i)"
    by auto
  from i(1) have "?cs ! i \<in> set ?cs" by simp
  from reachesRoot_bound [OF this i(2)] have "reachesRoot ?cs (length as) (?cs ! i)" by simp
  moreover from "2.prems"(3) i(3) have "\<not> reachesRoot ?cs (length as) (?cs ! i)" by simp
  ultimately show ?case by blast
next
  case (3 fuel H a xs)
  let ?cs = "inputComments h as"
  from "3.prems"(2) obtain i k0 where i: "i < length as" "a = length h + i"
      "reachesRoot ?cs k0 (?cs ! i)" "\<forall>k<e. \<not> reachesRoot ?cs k (?cs ! i)"
    by auto
  have kids: "\<forall>b\<in>set (repliesOf H a). \<exists>j<length as. b = length h + j
             \<and> (\<exists>k. reachesRoot ?cs k (?cs ! j))
             \<and> (\<forall>k<Suc e. \<not> reachesRoot ?cs k (?cs ! j))"
  proof
    fix b assume "b \<in> set (repliesOf H a)"
    then obtain j where j: "b = length h + j" "j < length as"
        "parentRef (?cs ! j) = Some (id' (?cs ! i))"
      using i(1) by (auto simp: "3.prems"(1) i(2) spec_replies in_childIdx)
    have step: "\<And>k. reachesRoot ?cs (Suc k) (?cs ! j) = reachesRoot ?cs k (?cs ! i)"
      using reachesRoot_child [OF d _ j(3)] i(1) by simp
    from i(3) step have up: "\<exists>k. reachesRoot ?cs k (?cs ! j)" by blast
    have "\<forall>k<Suc e. \<not> reachesRoot ?cs k (?cs ! j)"
    proof (intro allI impI)
      fix k assume k: "k < Suc e"
      show "\<not> reachesRoot ?cs k (?cs ! j)"
      proof (cases k)
        case 0
        with j(3) show ?thesis by simp
      next
        case (Suc k')
        with k i(4) have "\<not> reachesRoot ?cs k' (?cs ! i)" by simp
        with step Suc show ?thesis by simp
      qed
    qed
    with j up show "\<exists>j<length as. b = length h + j
             \<and> (\<exists>k. reachesRoot ?cs k (?cs ! j))
             \<and> (\<forall>k<Suc e. \<not> reachesRoot ?cs k (?cs ! j))" by blast
  qed
  from "3.prems"(3) have "length as < fuel + Suc e" by simp
  from "3.IH"(1) [OF "3.prems"(1) kids this]
  obtain below where below: "flatten fuel H (repliesOf H a) = Some below" by blast
  from "3.prems"(2) have rest: "\<forall>a\<in>set xs. \<exists>i<length as. a = length h + i
             \<and> (\<exists>k. reachesRoot ?cs k (?cs ! i))
             \<and> (\<forall>k<e. \<not> reachesRoot ?cs k (?cs ! i))" by simp
  from "3.IH"(2) [OF below "3.prems"(1) rest "3.prems"(3)]
  show ?case by (auto simp: below)
qed

lemma flatten_spec_returns:
  assumes d: "distinct (map id' (inputComments h as))"
  shows "\<exists>out. flatten (Suc (length as)) (specHeap h as) (specRoots h as) = Some out"
proof -
  let ?cs = "inputComments h as"
  have "\<forall>a\<in>set (specRoots h as). \<exists>i<length as. a = length h + i
          \<and> (\<exists>k. reachesRoot ?cs k (?cs ! i)) \<and> (\<forall>k<0. \<not> reachesRoot ?cs k (?cs ! i))"
  proof
    fix a assume "a \<in> set (specRoots h as)"
    then obtain i where i: "a = length h + i" "i < length as" "parentRef (?cs ! i) = None"
      by (auto simp: specRoots_def in_rootIdx)
    from i(3) have "reachesRoot ?cs 0 (?cs ! i)" by simp
    with i(1,2) show "\<exists>i<length as. a = length h + i
          \<and> (\<exists>k. reachesRoot ?cs k (?cs ! i)) \<and> (\<forall>k<0. \<not> reachesRoot ?cs k (?cs ! i))"
      by blast
  qed
  from flatten_spec_total [OF d refl this, of "Suc (length as)"] show ?thesis by auto
qed

lemma copies_index:
  assumes "b \<in> copies h as Q"
  obtains j where "b = length h + j" "j < length as" "Q j"
proof -
  from assms have "length h \<le> b" "b - length h < length as" "Q (b - length h)"
    by (auto simp: copies_def)
  then show ?thesis using that [of "b - length h"] by simp
qed

lemma flatten_spec_range:
  assumes "flatten fuel (specHeap h as) (specRoots h as) = Some out"
  shows "set out \<subseteq> copies h as (\<lambda>_. True)"
  by (rule flatten_spec_copies [OF assms]) simp_all

lemma count_root:
  assumes out: "flatten fuel (specHeap h as) (specRoots h as) = Some out"
    and i: "i < length as" and p: "parentRef (inputComments h as ! i) = None"
  shows "count_list out (length h + i) = 1"
proof -
  have "map (\<lambda>b. count_list (repliesOf (specHeap h as) b) (length h + i)) out
      = map (\<lambda>b. 0) out"
  proof (rule map_cong [OF refl])
    fix b assume "b \<in> set out"
    with flatten_spec_range [OF out] have "b \<in> copies h as (\<lambda>_. True)" by blast
    then obtain j where j: "b = length h + j" "j < length as" by (rule copies_index)
    show "count_list (repliesOf (specHeap h as) b) (length h + i) = 0"
      by (simp add: j count_spec_replies p)
  qed
  then have "sum_list (map (\<lambda>b. count_list (repliesOf (specHeap h as) b) (length h + i)) out) = 0"
    by simp
  with flatten_count [OF out, of "length h + i"] show ?thesis
    by (simp add: count_spec_roots i p)
qed

lemma count_child:
  assumes d: "distinct (map id' (inputComments h as))"
    and out: "flatten fuel (specHeap h as) (specRoots h as) = Some out"
    and i: "i < length as" and q: "q < length as"
    and p: "parentRef (inputComments h as ! i) = Some (id' (inputComments h as ! q))"
  shows "count_list out (length h + i) = count_list out (length h + q)"
proof -
  have e: "map (\<lambda>b. count_list (repliesOf (specHeap h as) b) (length h + i)) out
      = map (\<lambda>b. if b = length h + q then 1 else 0) out"
  proof (rule map_cong [OF refl])
    fix b assume "b \<in> set out"
    with flatten_spec_range [OF out] have "b \<in> copies h as (\<lambda>_. True)" by blast
    then obtain j where j: "b = length h + j" "j < length as" by (rule copies_index)
    from same_id_index [OF d, of q j] q j(2)
    have "id' (inputComments h as ! q) = id' (inputComments h as ! j) \<longleftrightarrow> q = j" by simp
    then show "count_list (repliesOf (specHeap h as) b) (length h + i)
         = (if b = length h + q then 1 else 0)"
      using i by (auto simp add: j count_spec_replies p)
  qed
  have "sum_list (map (\<lambda>b. count_list (repliesOf (specHeap h as) b) (length h + i)) out)
      = count_list out (length h + q)"
    unfolding e by (rule sum_list_indicator)
  with flatten_count [OF out, of "length h + i"] show ?thesis
    by (simp add: count_spec_roots i p)
qed

lemma count_reaches:
  assumes d: "distinct (map id' (inputComments h as))"
    and out: "flatten fuel (specHeap h as) (specRoots h as) = Some out"
  shows "i < length as \<Longrightarrow> reachesRoot (inputComments h as) k (inputComments h as ! i) \<Longrightarrow>
         count_list out (length h + i) = 1"
proof (induction k arbitrary: i)
  case 0
  then show ?case using count_root [OF out] by simp
next
  case (Suc k)
  let ?cs = "inputComments h as"
  show ?case
  proof (cases "parentRef (?cs ! i)")
    case None
    with Suc.prems show ?thesis using count_root [OF out] by simp
  next
    case (Some pid)
    with Suc.prems(2) obtain c where c: "find (\<lambda>p. id' p = pid) ?cs = Some c"
        "reachesRoot ?cs k c"
      by (auto split: option.splits)
    from find_id_index [OF c(1)] obtain q where q: "q < length as" "c = ?cs ! q" "id' (?cs ! q) = pid"
      by auto
    from Suc.IH [OF q(1)] c(2) q(2) have "count_list out (length h + q) = 1" by simp
    with count_child [OF d out Suc.prems(1) q(1)] Some q(3) show ?thesis by simp
  qed
qed

lemma flatten_more_fuel:
  "flatten d h xs = Some out \<Longrightarrow> flatten (d + k) h xs = Some out"
  by (induction k) (simp_all add: flatten_mono)

lemma mset_from_counts:
  assumes "\<And>a. n0 \<le> a \<Longrightarrow> a < n0 + n \<Longrightarrow> count_list out a = 1"
    and "set out \<subseteq> {n0..<n0 + n}"
  shows "mset out = mset [n0..<n0 + n]"
proof (rule multiset_eqI)
  fix a
  show "count (mset out) a = count (mset [n0..<n0 + n]) a"
  proof (cases "n0 \<le> a \<and> a < n0 + n")
    case True
    then have "count (mset [n0..<n0 + n]) a = 1"
      by (simp add: count_mset count_list_eq_length_filter)
    with True assms(1) show ?thesis by (simp add: count_mset)
  next
    case False
    with assms(2) have "a \<notin> set out" by auto
    with False show ?thesis by (auto simp: count_mset)
  qed
qed


subsection \<open>Comments that reach no root\<close>

lemma reaches_copies:
  assumes d: "distinct (map id' (inputComments h as))"
    and out: "flatten fuel (specHeap h as) (specRoots h as) = Some out"
  shows "set out \<subseteq> copies h as (\<lambda>i. \<exists>k. reachesRoot (inputComments h as) k (inputComments h as ! i))"
proof (rule flatten_spec_copies [OF out])
  fix i assume "i < length as" "parentRef (inputComments h as ! i) = None"
  then have "reachesRoot (inputComments h as) 0 (inputComments h as ! i)" by simp
  then show "\<exists>k. reachesRoot (inputComments h as) k (inputComments h as ! i)" ..
next
  fix i j
  assume i: "i < length as" and "j < length as"
    and "\<exists>k. reachesRoot (inputComments h as) k (inputComments h as ! i)"
    and p: "parentRef (inputComments h as ! j) = Some (id' (inputComments h as ! i))"
  then obtain k where "reachesRoot (inputComments h as) k (inputComments h as ! i)" by blast
  with reachesRoot_child [OF d _ p, of k] i
  have "reachesRoot (inputComments h as) (Suc k) (inputComments h as ! j)" by simp
  then show "\<exists>k. reachesRoot (inputComments h as) k (inputComments h as ! j)" ..
qed

lemma unrooted_not_flattened:
  assumes d: "distinct (map id' (inputComments h as))"
    and out: "flatten fuel (specHeap h as) (specRoots h as) = Some out"
    and n: "\<And>k. \<not> reachesRoot (inputComments h as) k (inputComments h as ! i)"
  shows "length h + i \<notin> set out"
proof
  assume "length h + i \<in> set out"
  with reaches_copies [OF d out] have
    "length h + i \<in> copies h as (\<lambda>i. \<exists>k. reachesRoot (inputComments h as) k (inputComments h as ! i))"
    by blast
  then have "\<exists>k. reachesRoot (inputComments h as) k (inputComments h as ! i)"
    by (simp add: copies_def)
  with n show False by blast
qed

lemma orphan_unrooted:
  assumes "parentRef c = Some pid" and "pid \<notin> set (map id' cs)"
  shows "\<not> reachesRoot cs k c"
proof (cases k)
  case 0
  with assms(1) show ?thesis by simp
next
  case (Suc k')
  from assms(2) have "find (\<lambda>p. id' p = pid) cs = None"
    by (auto simp: find_None_iff)
  with assms(1) Suc show ?thesis by simp
qed






lemmas organize_eval = organizeComments_def attach_def deref_def parentRef_def truthy_def
  repliesOr_def mkComment_def



subsection \<open>The claims on the comment tree\<close>

text \<open>
  C1, as stated, fails on a cycle. The comment that names itself as its parent has a
  \<^verbatim>\<open>parentId\<close> that is the id of a comment of the collection, yet it is pushed onto
  its own \<^verbatim>\<open>replies\<close> and not onto \<^verbatim>\<open>rootComments\<close>: the flattening of the result is
  empty, for an input of one comment.
\<close>

theorem forest_complete_self_parent_counterexample:
  "validInput selfParentHeap [0]
   \<and> noOrphans (inputComments selfParentHeap [0])
   \<and> distinct (map id' (inputComments selfParentHeap [0]))
   \<and> organizeComments selfParentHeap [0]
       = Inr ([mkComment ''a'' (Some ''a''), (mkComment ''a'' (Some ''a''))\<lparr>replies := Some [1]\<rparr>], [])
   \<and> flatten 2 [mkComment ''a'' (Some ''a''), (mkComment ''a'' (Some ''a''))\<lparr>replies := Some [1]\<rparr>] []
       = Some []
   \<and> length ([] :: addr list) \<noteq> length [0 :: addr]"
  by (simp add: validInput_def noOrphans_def inputComments_def selfParentHeap_def organize_eval)

text \<open>
  C1, amended. For every input collection of \<open>n\<close> comments with unique ids in which the
  parent references of every comment lead to a comment without one (no orphan reference
  and no cycle), \<open>organizeComments\<close> returns, and the depth-first flattening of its
  result from the roots returns with depth bound \<open>n + 1\<close> (and with every larger one); it
  visits \<open>n\<close> objects, no object twice, and the records visited are, apart from their
  \<^verbatim>\<open>replies\<close>, exactly the input records, each once.
\<close>

theorem forest_complete:
  assumes v: "validInput h as"
    and d: "distinct (map id' (inputComments h as))"
    and r: "rooted (inputComments h as)"
  shows "\<exists>h' roots out. organizeComments h as = Inr (h', roots)
     \<and> flatten (Suc (length as)) h' roots = Some out
     \<and> (\<forall>k. flatten (Suc (length as) + k) h' roots = Some out)
     \<and> length out = length as
     \<and> distinct out
     \<and> mset (map (\<lambda>a. stored (h' ! a)) out) = mset (map stored (inputComments h as))"
proof -
  let ?cs = "inputComments h as"
  let ?H = "specHeap h as"
  let ?R = "specRoots h as"
  have org: "organizeComments h as = Inr (?H, ?R)" by (rule organize_spec [OF v d])
  from r have rr: "\<forall>i<length as. reachesRoot ?cs (length as) (?cs ! i)"
    by (simp add: rooted_def list_all_length)
  from flatten_spec_returns [OF d]
  obtain out where out: "flatten (Suc (length as)) ?H ?R = Some out" by blast
  have one: "\<And>a. length h \<le> a \<Longrightarrow> a < length h + length as \<Longrightarrow> count_list out a = 1"
  proof -
    fix a assume a: "length h \<le> a" "a < length h + length as"
    then obtain i where i: "a = length h + i" "i < length as"
      by (metis add_diff_inverse_nat nat_add_left_cancel_less not_less)
    from rr i(2) have "reachesRoot ?cs (length as) (?cs ! i)" by simp
    from count_reaches [OF d out i(2) this] show "count_list out a = 1" by (simp add: i(1))
  qed
  have rng: "set out \<subseteq> {length h..<length h + length as}"
    using flatten_spec_range [OF out] by (auto simp: copies_def)
  have ms: "mset out = mset [length h..<length h + length as]"
    by (rule mset_from_counts [OF one rng])
  have cells: "map (\<lambda>a. stored (?H ! a)) [length h..<length h + length as] = map stored ?cs"
    by (rule nth_equalityI) (simp_all add: spec_stored)
  have "mset (map (\<lambda>a. stored (?H ! a)) out) = image_mset (\<lambda>a. stored (?H ! a)) (mset out)"
    by simp
  also have "\<dots> = mset (map (\<lambda>a. stored (?H ! a)) [length h..<length h + length as])"
    by (simp only: ms mset_map)
  finally have recs: "mset (map (\<lambda>a. stored (?H ! a)) out) = mset (map stored ?cs)"
    by (simp only: cells)
  from ms have dist: "distinct out" using mset_eq_imp_distinct_iff distinct_upt by blast
  from ms have len: "length out = length as" using mset_eq_length by fastforce
  have more: "\<forall>k. flatten (Suc (length as) + k) ?H ?R = Some out"
    using flatten_more_fuel [OF out] by blast
  from org out more len dist recs show ?thesis by blast
qed

theorem forest_complete_witness:
  "validInput threadHeap [0, 1, 2, 3]
   \<and> distinct (map id' (inputComments threadHeap [0, 1, 2, 3]))
   \<and> rooted (inputComments threadHeap [0, 1, 2, 3])
   \<and> (\<exists>h' roots out. organizeComments threadHeap [0, 1, 2, 3] = Inr (h', roots)
        \<and> flatten 5 h' roots = Some out \<and> length out = 4
        \<and> mset (map (\<lambda>a. id' (h' ! a)) out) = {#''1'', ''2'', ''1a'', ''1b''#})"
proof -
  have v: "validInput threadHeap [0, 1, 2, 3]"
    by (simp add: validInput_def threadHeap_def)
  have cs: "inputComments threadHeap [0, 1, 2, 3] = threadHeap"
    by (simp add: inputComments_def threadHeap_def)
  have d: "distinct (map id' (inputComments threadHeap [0, 1, 2, 3]))"
    by (simp only: cs) (simp add: threadHeap_def mkComment_def)
  have r: "rooted (inputComments threadHeap [0, 1, 2, 3])"
    by (simp only: cs) (simp add: rooted_def threadHeap_def mkComment_def parentRef_def truthy_def)
  from forest_complete [OF v d r] obtain h' roots out where
    o: "organizeComments threadHeap [0, 1, 2, 3] = Inr (h', roots)"
       "flatten (Suc (length [0::nat, 1, 2, 3])) h' roots = Some out"
       "length out = length [0::nat, 1, 2, 3]"
       "mset (map (\<lambda>a. stored (h' ! a)) out) = mset (map stored (inputComments threadHeap [0, 1, 2, 3]))"
    by blast
  have "map (\<lambda>a. id' (h' ! a)) out = map id' (map (\<lambda>a. stored (h' ! a)) out)"
    by (simp add: stored_def)
  then have "mset (map (\<lambda>a. id' (h' ! a)) out) = image_mset id' (mset (map (\<lambda>a. stored (h' ! a)) out))"
    by (simp only: mset_map)
  also have "\<dots> = {#''1'', ''2'', ''1a'', ''1b''#}"
    by (simp only: o(4) cs) (simp add: threadHeap_def mkComment_def stored_def)
  finally have "mset (map (\<lambda>a. id' (h' ! a)) out) = {#''1'', ''2'', ''1a'', ''1b''#}" .
  moreover have "flatten 5 h' roots = Some out" "length out = 4"
    using o(2,3) by (simp_all add: eval_nat_numeral)
  ultimately show ?thesis using o(1) v d r by blast
qed

text \<open>
  C2, as stated, fails for a \<^verbatim>\<open>parentId\<close> that is present and empty: it is the id of
  no comment, but \<^verbatim>\<open>if (comment.parentId)\<close> is false for it, so the comment is pushed
  onto \<^verbatim>\<open>rootComments\<close> and is flattened.
\<close>

theorem orphan_empty_parentId_counterexample:
  "validInput emptyParentHeap [0]
   \<and> parentId (inputComments emptyParentHeap [0] ! 0) = Some []
   \<and> [] \<notin> set (map id' (inputComments emptyParentHeap [0]))
   \<and> organizeComments emptyParentHeap [0]
       = Inr ([mkComment ''a'' (Some []), (mkComment ''a'' (Some []))\<lparr>replies := Some []\<rparr>], [1])
   \<and> flatten 1 [mkComment ''a'' (Some []), (mkComment ''a'' (Some []))\<lparr>replies := Some []\<rparr>] [1]
       = Some [1]"
  by (simp add: validInput_def inputComments_def emptyParentHeap_def organize_eval repliesOf_def)

text \<open>
  C2, amended. For every input collection with unique ids, a comment whose \<^verbatim>\<open>parentId\<close>
  is present, not empty, and not the id of any comment of the collection appears nowhere
  in the output: its copy (the object at \<open>length h + i\<close>) is not among the roots and is
  in the \<^verbatim>\<open>replies\<close> of no output object; the depth-first flattening from the roots
  returns (within depth \<open>n + 1\<close>) and meets neither the copy nor any object with its id,
  whatever the depth bound.
\<close>

theorem orphan_dropped:
  assumes v: "validInput h as"
    and d: "distinct (map id' (inputComments h as))"
    and i: "i < length as"
    and p: "parentId (inputComments h as ! i) = Some pid" "pid \<noteq> []"
    and o: "pid \<notin> set (map id' (inputComments h as))"
  shows "\<exists>h' roots. organizeComments h as = Inr (h', roots)
     \<and> stored (h' ! (length h + i)) = stored (inputComments h as ! i)
     \<and> length h + i \<notin> set roots
     \<and> (\<forall>j<length as. length h + i \<notin> set (repliesOf h' (length h + j)))
     \<and> (\<exists>out. flatten (Suc (length as)) h' roots = Some out)
     \<and> (\<forall>fuel out. flatten fuel h' roots = Some out \<longrightarrow>
           length h + i \<notin> set out
           \<and> (\<forall>a\<in>set out. id' (h' ! a) \<noteq> id' (inputComments h as ! i)))"
proof -
  let ?cs = "inputComments h as"
  let ?H = "specHeap h as"
  let ?R = "specRoots h as"
  have org: "organizeComments h as = Inr (?H, ?R)" by (rule organize_spec [OF v d])
  from p have pr: "parentRef (?cs ! i) = Some pid"
    by (simp add: parentRef_def truthy_def)
  have st: "stored (?H ! (length h + i)) = stored (?cs ! i)" by (rule spec_stored [OF i])
  have nr: "length h + i \<notin> set ?R"
    using pr by (auto simp: specRoots_def in_rootIdx)
  have nk: "\<forall>j<length as. length h + i \<notin> set (repliesOf ?H (length h + j))"
  proof (intro allI impI)
    fix j assume j: "j < length as"
    from o j have "pid \<noteq> id' (?cs ! j)" by (metis length_inputComments length_map nth_map nth_mem)
    with pr j show "length h + i \<notin> set (repliesOf ?H (length h + j))"
      by (auto simp: spec_replies in_childIdx)
  qed
  have nf: "\<forall>fuel out. flatten fuel ?H ?R = Some out \<longrightarrow>
           length h + i \<notin> set out \<and> (\<forall>a\<in>set out. id' (?H ! a) \<noteq> id' (?cs ! i))"
  proof (intro allI impI)
    fix fuel out assume out: "flatten fuel ?H ?R = Some out"
    have ni: "length h + i \<notin> set out"
      by (rule unrooted_not_flattened [OF d out]) (rule orphan_unrooted [OF pr o])
    have "\<forall>a\<in>set out. id' (?H ! a) \<noteq> id' (?cs ! i)"
    proof
      fix a assume a: "a \<in> set out"
      with flatten_spec_range [OF out] have "a \<in> copies h as (\<lambda>_. True)" by blast
      then obtain j where j: "a = length h + j" "j < length as" by (rule copies_index)
      from a ni j have "j \<noteq> i" by auto
      with same_id_index [OF d, of j i] i j(2) have "id' (?cs ! j) \<noteq> id' (?cs ! i)" by simp
      then show "id' (?H ! a) \<noteq> id' (?cs ! i)" by (simp add: j spec_cell)
    qed
    with ni show "length h + i \<notin> set out \<and> (\<forall>a\<in>set out. id' (?H ! a) \<noteq> id' (?cs ! i))" ..
  qed
  from org st nr nk flatten_spec_returns [OF d] nf show ?thesis by blast
qed

theorem orphan_dropped_witness:
  "validInput orphanHeap [0]
   \<and> distinct (map id' (inputComments orphanHeap [0]))
   \<and> parentId (inputComments orphanHeap [0] ! 0) = Some ''missing''
   \<and> ''missing'' \<notin> set (map id' (inputComments orphanHeap [0]))
   \<and> (\<exists>h'. organizeComments orphanHeap [0] = Inr (h', []))
   \<and> (\<exists>h' roots. organizeComments orphanHeap [0] = Inr (h', roots)
         \<and> 1 \<notin> set roots \<and> 1 \<notin> set (repliesOf h' 1)
         \<and> (\<exists>out. flatten 2 h' roots = Some out)
         \<and> (\<forall>fuel out. flatten fuel h' roots = Some out \<longrightarrow> 1 \<notin> set out))"
proof -
  have v: "validInput orphanHeap [0]" by (simp add: validInput_def orphanHeap_def)
  have d: "distinct (map id' (inputComments orphanHeap [0]))"
    by (simp add: inputComments_def)
  have i: "0 < length [0::addr]" by simp
  have p: "parentId (inputComments orphanHeap [0] ! 0) = Some ''missing''" "''missing'' \<noteq> []"
    by (simp_all add: inputComments_def orphanHeap_def mkComment_def)
  have o: "''missing'' \<notin> set (map id' (inputComments orphanHeap [0]))"
    by (simp add: inputComments_def orphanHeap_def mkComment_def)
  have e: "\<exists>h'. organizeComments orphanHeap [0] = Inr (h', [])"
    by (simp add: orphanHeap_def organize_eval)
  from orphan_dropped [OF v d i p o]
  have "\<exists>h' roots. organizeComments orphanHeap [0] = Inr (h', roots)
         \<and> 1 \<notin> set roots \<and> 1 \<notin> set (repliesOf h' 1)
         \<and> (\<exists>out. flatten 2 h' roots = Some out)
         \<and> (\<forall>fuel out. flatten fuel h' roots = Some out \<longrightarrow> 1 \<notin> set out)"
    by (simp add: orphanHeap_def eval_nat_numeral) blast
  with v d p(1) o e show ?thesis by blast
qed



text \<open>
  C8. \<open>organizeComments\<close> leaves the caller's objects as they were: every object that
  was in the heap before the call, and so every record of the input collection, is
  unchanged at return, because every address stored in the lookup is the address of an
  object allocated by the first pass.
\<close>

theorem organizeComments_input_unchanged:
  assumes v: "validInput h as"
  shows "\<exists>h' roots. organizeComments h as = Inr (h', roots)
     \<and> take (length h) h' = h
     \<and> (\<forall>a\<in>set as. h' ! a = h ! a)
     \<and> (\<exists>h1 commentMap. firstPass as (h, Map.empty) = Inr (h1, commentMap)
           \<and> (\<forall>k a. commentMap k = Some a \<longrightarrow> length h \<le> a \<and> a < length h1))"
proof -
  from organize_frame [OF v] obtain h' roots where
    r: "organizeComments h as = Inr (h', roots)" "take (length h) h' = h" by blast
  from v have va: "\<forall>a\<in>set as. a < length h" by (simp add: validInput_def list_all_iff)
  have "\<forall>a\<in>set as. h' ! a = h ! a"
  proof
    fix a assume "a \<in> set as"
    with va have "a < length h" by blast
    then have "take (length h) h' ! a = h' ! a" by simp
    with r(2) show "h' ! a = h ! a" by simp
  qed
  moreover have "\<exists>h1 commentMap. firstPass as (h, Map.empty) = Inr (h1, commentMap)
           \<and> (\<forall>k a. commentMap k = Some a \<longrightarrow> length h \<le> a \<and> a < length h1)"
    using firstPass_shape [OF va, of Map.empty]
          lookupAfter_range [of Map.empty "length h" "map (\<lambda>a. h ! a) as"]
    by auto
  ultimately show ?thesis using r by blast
qed

theorem organizeComments_input_unchanged_witness:
  "validInput threadHeap [0, 1, 2, 3]
   \<and> (\<exists>h' roots. organizeComments threadHeap [0, 1, 2, 3] = Inr (h', roots)
         \<and> take 4 h' = threadHeap \<and> h' ! 0 = mkComment ''1'' None)"
proof -
  have v: "validInput threadHeap [0, 1, 2, 3]"
    by (simp add: validInput_def threadHeap_def)
  from organizeComments_input_unchanged [OF v] obtain h' roots where
    o: "organizeComments threadHeap [0, 1, 2, 3] = Inr (h', roots)"
       "take (length threadHeap) h' = threadHeap"
       "\<forall>a\<in>set [0::addr, 1, 2, 3]. h' ! a = threadHeap ! a"
    by blast
  have len4: "length threadHeap = 4" by (simp add: threadHeap_def)
  from o(2) have "take 4 h' = threadHeap" unfolding len4 .
  moreover from o(3) have "h' ! 0 = mkComment ''1'' None" by (simp add: threadHeap_def)
  ultimately show ?thesis using v o(1) by blast
qed

text \<open>
  C9. \<open>organizeComments\<close> returns a result, never an error, for every input collection:
  the first pass leaves a lookup entry for the id of every input comment, so the non-null
  lookup of the second pass succeeds, and a parent id without a lookup entry leaves the
  heap and the roots as they are.
\<close>

theorem organizeComments_total:
  assumes v: "validInput h as"
  shows "(\<exists>h1 commentMap. firstPass as (h, Map.empty) = Inr (h1, commentMap)
           \<and> (\<forall>a\<in>set as. commentMap (id' (h ! a)) \<noteq> None))
     \<and> (\<exists>h' roots. organizeComments h as = Inr (h', roots))
     \<and> (\<forall>m a c t pid hc rs.
           deref hc a = Some c \<and> m (id' c) = Some t \<and> parentRef c = Some pid \<and> m pid = None
           \<longrightarrow> attach m a (hc, rs) = Inr (hc, rs))"
proof -
  from v have va: "\<forall>a\<in>set as. a < length h" by (simp add: validInput_def list_all_iff)
  have "\<forall>a\<in>set as. lookupAfter Map.empty (length h) (map (\<lambda>a. h ! a) as) (id' (h ! a)) \<noteq> None"
  proof
    fix a assume "a \<in> set as"
    then have "id' (h ! a) \<in> id' ` set (map (\<lambda>a. h ! a) as)" by simp
    then show "lookupAfter Map.empty (length h) (map (\<lambda>a. h ! a) as) (id' (h ! a)) \<noteq> None"
      by (intro lookupAfter_dom disjI1)
  qed
  with firstPass_shape [OF va, of Map.empty]
  have fp: "\<exists>h1 commentMap. firstPass as (h, Map.empty) = Inr (h1, commentMap)
           \<and> (\<forall>a\<in>set as. commentMap (id' (h ! a)) \<noteq> None)"
    by blast
  from organize_frame [OF v] have tot: "\<exists>h' roots. organizeComments h as = Inr (h', roots)"
    by blast
  have "\<forall>m a c t pid hc rs.
           deref hc a = Some c \<and> m (id' c) = Some t \<and> parentRef c = Some pid \<and> m pid = None
           \<longrightarrow> attach m a (hc, rs) = Inr (hc, rs)"
    by (simp add: attach_def)
  with fp tot show ?thesis by blast
qed

theorem organizeComments_total_witness:
  "validInput orphanHeap [0]
   \<and> (\<exists>h' roots. organizeComments orphanHeap [0] = Inr (h', roots))
   \<and> (\<exists>h1 commentMap. firstPass [0] (orphanHeap, Map.empty) = Inr (h1, commentMap)
         \<and> commentMap ''a'' \<noteq> None)"
proof -
  have v: "validInput orphanHeap [0]" by (simp add: validInput_def orphanHeap_def)
  from organizeComments_total [OF v] show ?thesis
    using v by (simp add: orphanHeap_def mkComment_def)
qed




end
